theory Spec2Isabelle
  imports Main "HOL-Library.Word"
begin

unbundle bit_operations_syntax

section \<open>Data model of keyb.c\<close>

type_synonym u8 = "8 word"
type_synonym u16 = "16 word"
type_synonym s32 = "32 word"

text \<open>
  \<^verbatim>\<open>struct input_event\<close> of the kernel's input interface. Only the three fields the
  program reads or writes are kept; the time stamp is never looked at.
\<close>

record evdev_event =
  ev_type :: u16
  ev_code :: u16
  ev_value :: s32

text \<open>\<^verbatim>\<open>struct key_report\<close>: the packed nine-byte packet sent after a key press.\<close>

record key_report =
  rtype :: u8
  report_id :: u8
  mods :: u8
  reserved :: u8
  key :: "u8 list"

text \<open>\<^verbatim>\<open>struct status\<close>: keys pressed and LEDs lit.\<close>

record status =
  leds :: u8
  report :: key_report

text \<open>
  System calls are the program's only effects. Each call the code makes is one entry of
  a trace; what a call returns is an input of the model.
\<close>

datatype ioctl_req = EVIOCGVERSION | EVIOCGBIT | EVIOCGRAB | EVIOCSREP

datatype io =
    Write_event int evdev_event
  | Write_bytes int "u8 list"
  | Open_dev int
  | Ioctl int ioctl_req
  | Close_fd int
  | Sleep nat
  | L2cap_listen u16 int
  | L2cap_connect u16 int
  | L2cap_accept int int

text \<open>
  Every place where the code prints a diagnostic and returns \<^verbatim>\<open>-1\<close> is one error value.
\<close>

datatype error =
    RemoteReadError
  | RemoteDisconnected
  | InputReadError
  | MalformedEventError
  | SendError
  | DeviceOpenError
  | VersionQueryError
  | VersionMismatchError
  | FeatureQueryError
  | NotAKeyboardError
  | GrabError
  | AutorepeatConfigError

section \<open>Constants of the headers\<close>

text \<open>Constants of \<^verbatim>\<open>linux/input.h\<close>, a system header.\<close>

definition EV_KEY :: u16 where "EV_KEY = 0x01"
definition EV_LED :: u16 where "EV_LED = 0x11"
definition EV_VERSION :: s32 where "EV_VERSION = 0x010001"
definition LED_NUML :: u16 where "LED_NUML = 0x00"
definition LED_CAPSL :: u16 where "LED_CAPSL = 0x01"
definition LED_SCROLLL :: u16 where "LED_SCROLLL = 0x02"
definition LED_COMPOSE :: u16 where "LED_COMPOSE = 0x03"
definition LED_KANA :: u16 where "LED_KANA = 0x04"
definition KEY_LEFTCTRL :: u16 where "KEY_LEFTCTRL = 29"
definition KEY_LEFTSHIFT :: u16 where "KEY_LEFTSHIFT = 42"
definition KEY_LEFTALT :: u16 where "KEY_LEFTALT = 56"
definition KEY_RIGHTCTRL :: u16 where "KEY_RIGHTCTRL = 97"
definition KEY_RIGHTSHIFT :: u16 where "KEY_RIGHTSHIFT = 54"
definition KEY_RIGHTALT :: u16 where "KEY_RIGHTALT = 100"

text \<open>
  \<^verbatim>\<open>sizeof (struct input_event)\<close>: a \<^verbatim>\<open>struct timeval\<close> of 16 bytes, two 16-bit
  fields and one 32-bit field on a 64-bit Linux.
\<close>

definition sizeof_event :: int where "sizeof_event = 24"

text \<open>
  Modelled from the spec: the HIDP constants come from \<^verbatim>\<open>hid.h\<close> and
  \<^verbatim>\<open>bluetooth/hidp.h\<close>, which are not among the sources. The values are those of the
  Bluetooth HID profile: the transaction type is the high nibble of the header byte, so
  that Data with the report type Input is the byte \<^verbatim>\<open>A1\<close> that opens the hello frames,
  and a handshake is the type Handshake combined with a result code. The LED bits are in
  the order Num, Caps, Scroll, Compose, Kana from bit 0, so that \<^verbatim>\<open>0x07\<close> lights the
  first three. The modifier bits are the ones of the HID keyboard report; no property
  below depends on their values.
\<close>

definition HIDP_HEADER_TRANS_MASK :: u8 where "HIDP_HEADER_TRANS_MASK = 0xf0"
definition HIDP_TRANS_HANDSHAKE :: u8 where "HIDP_TRANS_HANDSHAKE = 0x00"
definition HIDP_TRANS_SET_PROTOCOL :: u8 where "HIDP_TRANS_SET_PROTOCOL = 0x70"
definition HIDP_TRANS_DATA :: u8 where "HIDP_TRANS_DATA = 0xa0"
definition HIDP_HSHK_SUCCESSFUL :: u8 where "HIDP_HSHK_SUCCESSFUL = 0x00"
definition HIDP_HSHK_ERR_UNKNOWN :: u8 where "HIDP_HSHK_ERR_UNKNOWN = 0x0e"
definition HIDP_DATA_RTYPE_INPUT :: u8 where "HIDP_DATA_RTYPE_INPUT = 0x01"
definition HIDP_NUML :: u8 where "HIDP_NUML = 0x01"
definition HIDP_CAPSL :: u8 where "HIDP_CAPSL = 0x02"
definition HIDP_SCROLLL :: u8 where "HIDP_SCROLLL = 0x04"
definition HIDP_COMPOSE :: u8 where "HIDP_COMPOSE = 0x08"
definition HIDP_KANA :: u8 where "HIDP_KANA = 0x10"
definition HIDP_LEFTCTRL :: int where "HIDP_LEFTCTRL = 0x01"
definition HIDP_LEFTSHIFT :: int where "HIDP_LEFTSHIFT = 0x02"
definition HIDP_LEFTALT :: int where "HIDP_LEFTALT = 0x04"
definition HIDP_RIGHTCTRL :: int where "HIDP_RIGHTCTRL = 0x10"
definition HIDP_RIGHTSHIFT :: int where "HIDP_RIGHTSHIFT = 0x20"
definition HIDP_RIGHTALT :: int where "HIDP_RIGHTALT = 0x40"
definition L2CAP_PSM_HIDP_CTRL :: u16 where "L2CAP_PSM_HIDP_CTRL = 0x11"
definition L2CAP_PSM_HIDP_INTR :: u16 where "L2CAP_PSM_HIDP_INTR = 0x13"

section \<open>LED updates and inbound commands\<close>

text \<open>
  \<^verbatim>\<open>set_leds\<close> (lines 48 to 77) fills one event five times and writes it to the input
  device each time; \<^verbatim>\<open>!!(leds & bit)\<close> is 1 when the bit is set and 0 otherwise. The
  results of the writes are not looked at.
\<close>

definition led_event :: "u16 \<Rightarrow> bool \<Rightarrow> evdev_event" where
  "led_event c on = \<lparr>ev_type = EV_LED, ev_code = c, ev_value = (if on then 1 else 0)\<rparr>"

definition set_leds :: "int \<Rightarrow> u8 \<Rightarrow> int \<times> io list" where
  "set_leds input l =
     (0, [Write_event input (led_event LED_NUML (l AND HIDP_NUML \<noteq> 0)),
          Write_event input (led_event LED_CAPSL (l AND HIDP_CAPSL \<noteq> 0)),
          Write_event input (led_event LED_SCROLLL (l AND HIDP_SCROLLL \<noteq> 0)),
          Write_event input (led_event LED_COMPOSE (l AND HIDP_COMPOSE \<noteq> 0)),
          Write_event input (led_event LED_KANA (l AND HIDP_KANA \<noteq> 0))])"

text \<open>
  \<^verbatim>\<open>btooth_command\<close> (lines 80 to 128). The read from \<^verbatim>\<open>fd\<close> is the pair \<open>(n, buf)\<close>:
  the value \<^verbatim>\<open>read\<close> returned and the buffer afterwards. The result is the error (none
  when the C function returns 0), the keyboard status the caller's pointer refers to
  afterwards, and the calls made. The \<^verbatim>\<open>case HIDP_TRANS_DATA\<close> falls through to
  \<^verbatim>\<open>default\<close> when the size is neither 3 nor 2. The dump of the bytes on standard error
  is not part of the model.
\<close>

definition btooth_command ::
  "status \<Rightarrow> int \<Rightarrow> int \<Rightarrow> int \<times> u8 list \<Rightarrow> error option \<times> status \<times> io list" where
  "btooth_command st fd input rd =
     (let n = fst rd; buf = snd rd; handshake = HIDP_TRANS_HANDSHAKE in
      if n = - 1 then (Some RemoteReadError, st, [])
      else if n = 0 then (Some RemoteDisconnected, st, [])
      else if buf ! 0 AND HIDP_HEADER_TRANS_MASK = HIDP_TRANS_SET_PROTOCOL
        then (None, st, [Write_bytes fd [handshake OR HIDP_HSHK_SUCCESSFUL]])
      else if buf ! 0 AND HIDP_HEADER_TRANS_MASK = HIDP_TRANS_DATA \<and> (n = 3 \<or> n = 2)
        then (None, st, snd (set_leds input (buf ! nat (n - 1))))
      else (None, st, [Write_bytes fd [handshake OR HIDP_HSHK_ERR_UNKNOWN]]))"

section \<open>Key events\<close>

text \<open>
  The loop of lines 185 to 201 over the six key slots, from index \<open>i\<close> on. \<open>v\<close> is
  \<^verbatim>\<open>event.value\<close> and \<open>c\<close> is the \<^verbatim>\<open>int code\<close>; a slot is a byte, so comparing it
  with \<open>c\<close> compares its unsigned value and storing \<open>c\<close> truncates. The \<^verbatim>\<open>break\<close> is
  the branch that does not recurse.
\<close>

function key_loop :: "s32 \<Rightarrow> int \<Rightarrow> nat \<Rightarrow> u8 list \<Rightarrow> u8 list" where
  "key_loop v c i k =
     (if i < 6 then
        (let k1 = (if uint (k ! i) = c then k[i := 0] else k) in
         if v \<noteq> 0 \<and> k1 ! i = 0 then k1[i := word_of_int c]
         else key_loop v c (i + 1)
                (if i < 5 \<and> k1 ! i = 0 then (k1[i := k1 ! (i + 1)])[i + 1 := 0] else k1))
      else k)"
  by pat_completeness auto
termination
  by (relation "measure (\<lambda>(v, c, i, k). 6 - i)") auto

declare key_loop.simps [simp del]

text \<open>The \<^verbatim>\<open>switch\<close> of lines 161 to 168: the modifier bit of a key code, 0 for any other key.\<close>

definition modifier_of :: "u16 \<Rightarrow> int" where
  "modifier_of c =
     (if c = KEY_LEFTCTRL then HIDP_LEFTCTRL
      else if c = KEY_LEFTSHIFT then HIDP_LEFTSHIFT
      else if c = KEY_LEFTALT then HIDP_LEFTALT
      else if c = KEY_RIGHTCTRL then HIDP_RIGHTCTRL
      else if c = KEY_RIGHTSHIFT then HIDP_RIGHTSHIFT
      else if c = KEY_RIGHTALT then HIDP_RIGHTALT
      else 0)"

text \<open>The nine bytes of the packed report, in the order of the struct's fields.\<close>

definition report_bytes :: "key_report \<Rightarrow> u8 list" where
  "report_bytes r = [rtype r, report_id r, mods r, reserved r] @ key r"

text \<open>
  \<^verbatim>\<open>input_event\<close> (lines 131 to 219). \<open>linux2hid\<close> is the table of \<^verbatim>\<open>linux2hid.h\<close>,
  which is not among the sources: it is a parameter, and its entries are read into an
  \<^verbatim>\<open>int\<close>. The read from the event device is the pair \<open>(n, event)\<close>; \<open>w\<close> is what the
  write of the report to the interrupt channel returns.
\<close>

definition input_event ::
  "(u16 \<Rightarrow> int) \<Rightarrow> status \<Rightarrow> int \<Rightarrow> int \<Rightarrow> int \<Rightarrow> int \<times> evdev_event \<Rightarrow> int \<Rightarrow>
     error option \<times> status \<times> io list" where
  "input_event linux2hid st input ctrl intr rd w =
     (let n = fst rd; event = snd rd in
      if n = - 1 then (Some InputReadError, st, [])
      else if n \<noteq> sizeof_event then (Some MalformedEventError, st, [])
      else if ev_type event \<noteq> EV_KEY then (None, st, [])
      else if ev_code event \<ge> 256 then (None, st, [])
      else
        (let m = modifier_of (ev_code event);
             r = report st;
             r' = (if m \<noteq> 0 then
                     (if ev_value event \<noteq> 0 then r\<lparr>mods := mods r OR word_of_int m\<rparr>
                      else r\<lparr>mods := mods r AND NOT (word_of_int m)\<rparr>)
                   else r\<lparr>key := key_loop (ev_value event) (linux2hid (ev_code event)) 0 (key r)\<rparr>);
             st' = st\<lparr>report := r'\<rparr>
         in (if w \<le> 0 then Some SendError else None, st',
             [Write_bytes intr (report_bytes r')])))"

section \<open>Opening the event device\<close>

text \<open>
  What the system answers to the calls of \<^verbatim>\<open>input_open\<close>: the descriptor \<^verbatim>\<open>open\<close>
  returns, and for each \<^verbatim>\<open>ioctl\<close> its return value and, for the two queries, the value
  it stores.
\<close>

record open_env =
  open_ret :: int
  version_ret :: int
  version :: s32
  bit_ret :: int
  features :: s32
  grab_ret :: int
  rep_ret :: int

text \<open>
  \<^verbatim>\<open>input_open\<close> (lines 222 to 271). \<open>Inl\<close> stands for the return value \<^verbatim>\<open>-1\<close>; the
  second component lists the calls made. \<^verbatim>\<open>version >> 16\<close> shifts a signed \<^verbatim>\<open>int\<close>.
\<close>

definition input_open :: "open_env \<Rightarrow> (error + int) \<times> io list" where
  "input_open e =
     (let input = open_ret e; t0 = [Open_dev input] in
      if input = - 1 then (Inl DeviceOpenError, t0)
      else
        (let t1 = t0 @ [Ioctl input EVIOCGVERSION] in
         if version_ret e = - 1 then (Inl VersionQueryError, t1)
         else if signed_drop_bit 16 (version e) \<noteq> signed_drop_bit 16 EV_VERSION
           then (Inl VersionMismatchError, t1)
         else
           (let t2 = t1 @ [Ioctl input EVIOCGBIT] in
            if bit_ret e = - 1 then (Inl FeatureQueryError, t2)
            else if features e AND ucast EV_KEY = 0 then (Inl NotAKeyboardError, t2)
            else
              (let t3 = t2 @ [Ioctl input EVIOCGRAB] in
               if grab_ret e = - 1 then (Inl GrabError, t3)
               else
                 (let t4 = t3 @ [Ioctl input EVIOCSREP] in
                  if rep_ret e = - 1 then (Inl AutorepeatConfigError, t4)
                  else (Inr input, t4))))))"

text \<open>A descriptor a trace opened and did not close.\<close>

definition still_open :: "io list \<Rightarrow> int \<Rightarrow> bool" where
  "still_open t fd = (Open_dev fd \<in> set t \<and> Close_fd fd \<notin> set t)"

section \<open>The session\<close>

text \<open>\<^verbatim>\<open>hello\<close> (lines 274 to 284): two frames on the control channel, then one second of sleep.\<close>

definition hello :: "int \<Rightarrow> io list" where
  "hello control =
     [Write_bytes control [0xa1, 0x13, 0x03], Write_bytes control [0xa1, 0x13, 0x02], Sleep 1]"

text \<open>The keyboard state as lines 300 to 307 initialise it.\<close>

definition init_status :: status where
  "init_status =
     \<lparr>leds = 0,
      report = \<lparr>rtype = HIDP_TRANS_DATA OR HIDP_DATA_RTYPE_INPUT, report_id = 0x01, mods = 0,
                reserved = 0, key = [0, 0, 0, 0, 0, 0]\<rparr>\<rparr>"

text \<open>
  The local variables of \<^verbatim>\<open>session\<close> while the loop runs, with the calls made so far.
  \<^verbatim>\<open>pf[1].fd\<close> to \<^verbatim>\<open>pf[4].fd\<close> are not separate fields: every assignment to
  \<^verbatim>\<open>control\<close>, \<^verbatim>\<open>intr\<close>, \<^verbatim>\<open>scontrol\<close> and \<^verbatim>\<open>sintr\<close> in the loop assigns the same
  value to its \<^verbatim>\<open>pf\<close> entry.
\<close>

record loop_state =
  ls_input :: int
  ls_control :: int
  ls_intr :: int
  ls_scontrol :: int
  ls_sintr :: int
  ls_status :: status
  ls_calls :: "io list"

text \<open>
  One wake-up of \<^verbatim>\<open>poll\<close> and what the system answers to the calls of that turn of the
  loop: the return value of \<^verbatim>\<open>poll\<close>, the five \<^verbatim>\<open>revents\<close>, and the results of the
  connects, reads, the report write and the accepts, for the calls that are made.
\<close>

record poll_round =
  poll_ret :: int
  re_input :: u16
  re_control :: u16
  re_intr :: u16
  re_scontrol :: u16
  re_sintr :: u16
  connect_ctrl :: int
  connect_intr :: int
  input_read :: "int \<times> evdev_event"
  report_write :: int
  control_read :: "int \<times> u8 list"
  intr_read :: "int \<times> u8 list"
  accept_ctrl :: int
  accept_intr :: int

text \<open>A turn of the loop either goes on to the next \<^verbatim>\<open>if\<close> or leaves the loop by \<^verbatim>\<open>break\<close>.\<close>

datatype 'a flow = Continue 'a | Break 'a

fun flow_state :: "'a flow \<Rightarrow> 'a" where
  "flow_state (Continue s) = s"
| "flow_state (Break s) = s"

fun and_then :: "'a flow \<Rightarrow> ('a \<Rightarrow> 'a flow) \<Rightarrow> 'a flow" where
  "and_then (Continue s) g = g s"
| "and_then (Break s) g = Break s"

definition emit :: "io list \<Rightarrow> loop_state \<Rightarrow> loop_state" where
  "emit t s = s\<lparr>ls_calls := ls_calls s @ t\<rparr>"

text \<open>\<^verbatim>\<open>poll\<close> reports nothing for an entry whose descriptor is negative.\<close>

definition revents_of :: "int \<Rightarrow> u16 \<Rightarrow> u16" where
  "revents_of fd re = (if fd < 0 then 0 else re)"

text \<open>
  Lines 342 to 365: an input event. \<open>tgt_any\<close> says that the target address equals
  \<^verbatim>\<open>BDADDR_ANY\<close>.
\<close>

definition on_input :: "(u16 \<Rightarrow> int) \<Rightarrow> bool \<Rightarrow> poll_round \<Rightarrow> loop_state \<Rightarrow> loop_state flow" where
  "on_input linux2hid tgt_any r s =
     and_then
       (if ls_control s = - 1 then
          (if tgt_any then Break s
           else
             (let c = connect_ctrl r;
                  s1 = emit [L2cap_connect L2CAP_PSM_HIDP_CTRL c] (s\<lparr>ls_control := c\<rparr>) in
              if c = - 1 then Break s1
              else
                (let i = connect_intr r;
                     s2 = emit [L2cap_connect L2CAP_PSM_HIDP_INTR i] (s1\<lparr>ls_intr := i\<rparr>) in
                 if i = - 1 then Break s2 else Continue (emit (hello c) s2))))
        else Continue s)
       (\<lambda>s. case input_event linux2hid (ls_status s) (ls_input s) (ls_control s) (ls_intr s)
                   (input_read r) (report_write r) of
               (e, st, t) \<Rightarrow>
                 (let s' = emit t (s\<lparr>ls_status := st\<rparr>) in
                  if e = None then Continue s' else Break s'))"

text \<open>Lines 366 to 381: a command on the descriptor \<open>fd\<close>, control or interrupt.\<close>

definition on_command :: "int \<Rightarrow> int \<times> u8 list \<Rightarrow> loop_state \<Rightarrow> loop_state flow" where
  "on_command fd rd s =
     (case btooth_command (ls_status s) fd (ls_input s) rd of
        (e, st, t) \<Rightarrow>
          (let s' = emit t (s\<lparr>ls_status := st\<rparr>) in
           if e = None then Continue s' else Break s'))"

text \<open>Lines 382 to 394: activity on the control server socket.\<close>

definition on_scontrol :: "poll_round \<Rightarrow> loop_state \<Rightarrow> loop_state flow" where
  "on_scontrol r s =
     (let s1 = (if ls_control s \<noteq> - 1 then emit [Close_fd (ls_control s)] s else s);
          c = accept_ctrl r;
          s2 = emit [L2cap_accept (ls_scontrol s) c] (s1\<lparr>ls_control := c\<rparr>) in
      if c = - 1 then Break s2
      else Continue ((emit [Close_fd (ls_scontrol s)] s2)\<lparr>ls_scontrol := - 1\<rparr>))"

text \<open>Lines 395 to 411: activity on the interrupt server socket.\<close>

definition on_sintr :: "poll_round \<Rightarrow> loop_state \<Rightarrow> loop_state flow" where
  "on_sintr r s =
     (if ls_control s = - 1 then Break s
      else
        (let s1 = (if ls_intr s \<noteq> - 1 then emit [Close_fd (ls_intr s)] s else s);
             i = accept_intr r;
             s2 = emit [L2cap_accept (ls_sintr s) i] (s1\<lparr>ls_intr := i\<rparr>) in
         if i = - 1 then Break s2
         else Continue ((emit (hello (ls_control s) @ [Close_fd (ls_sintr s)]) s2)
                          \<lparr>ls_sintr := - 1\<rparr>)))"

text \<open>
  The body of the \<^verbatim>\<open>while\<close> loop (lines 340 to 411) for one wake-up: the five
  \<^verbatim>\<open>revents\<close> are those \<^verbatim>\<open>poll\<close> stored for the descriptors as they were when it was
  called; the five handlers run in the order of the source.
\<close>

definition loop_body :: "(u16 \<Rightarrow> int) \<Rightarrow> bool \<Rightarrow> poll_round \<Rightarrow> loop_state \<Rightarrow> loop_state flow" where
  "loop_body linux2hid tgt_any r s0 =
     (let e0 = revents_of (ls_input s0) (re_input r);
          e1 = revents_of (ls_control s0) (re_control r);
          e2 = revents_of (ls_intr s0) (re_intr r);
          e3 = revents_of (ls_scontrol s0) (re_scontrol r);
          e4 = revents_of (ls_sintr s0) (re_sintr r) in
      and_then (if e0 \<noteq> 0 then on_input linux2hid tgt_any r s0 else Continue s0) (\<lambda>s.
      and_then (if e1 \<noteq> 0 then on_command (ls_control s) (control_read r) s else Continue s) (\<lambda>s.
      and_then (if e2 \<noteq> 0 then on_command (ls_intr s) (intr_read r) s else Continue s) (\<lambda>s.
      and_then (if e3 \<noteq> 0 then on_scontrol r s else Continue s) (\<lambda>s.
      (if e4 \<noteq> 0 then on_sintr r s else Continue s))))))"

text \<open>
  The \<^verbatim>\<open>while (poll (pf, 5, -1) > 0)\<close> loop over the wake-ups the system delivers.
  \<open>Break\<close> is the state in which the loop was left, by \<^verbatim>\<open>break\<close> or by a \<^verbatim>\<open>poll\<close>
  that returned no positive value. \<open>Continue\<close> is the state in which the program waits in
  \<^verbatim>\<open>poll\<close> after the last wake-up of the list: the loop has not been left.
\<close>

fun main_loop :: "(u16 \<Rightarrow> int) \<Rightarrow> bool \<Rightarrow> loop_state \<Rightarrow> poll_round list \<Rightarrow> loop_state flow" where
  "main_loop linux2hid tgt_any s [] = Continue s"
| "main_loop linux2hid tgt_any s (r # rs) =
     (if poll_ret r > 0 then
        (case loop_body linux2hid tgt_any r s of
           Break s' \<Rightarrow> Break s'
         | Continue s' \<Rightarrow> main_loop linux2hid tgt_any s' rs)
      else Break s)"

text \<open>The variables at line 339, when the loop is entered.\<close>

definition loop_start :: "int \<Rightarrow> int \<Rightarrow> int \<Rightarrow> io list \<Rightarrow> loop_state" where
  "loop_start input li lc t =
     \<lparr>ls_input = input, ls_control = - 1, ls_intr = - 1, ls_scontrol = lc, ls_sintr = li,
      ls_status = init_status, ls_calls = t\<rparr>"

text \<open>Lines 414 to 422: the descriptors closed after the loop.\<close>

definition cleanup :: "loop_state \<Rightarrow> io list" where
  "cleanup s =
     [Close_fd (ls_input s)]
     @ (if ls_scontrol s \<noteq> - 1 then [Close_fd (ls_scontrol s)] else [])
     @ (if ls_sintr s \<noteq> - 1 then [Close_fd (ls_sintr s)] else [])
     @ (if ls_control s \<noteq> - 1 then [Close_fd (ls_control s)] else [])
     @ (if ls_intr s \<noteq> - 1 then [Close_fd (ls_intr s)] else [])"

text \<open>
  Lines 299 to 328, before the loop: \<open>li\<close> and \<open>lc\<close> are what the two calls of
  \<^verbatim>\<open>l2cap_listen\<close> return, for the interrupt and the control channel. \<open>Inl\<close> is a
  return of 0 with the calls made; \<open>Inr\<close> is the state in which the loop is entered.
\<close>

definition session_setup :: "open_env \<Rightarrow> int \<Rightarrow> int \<Rightarrow> io list + loop_state" where
  "session_setup oe li lc =
     (case input_open oe of
        (Inl e, t) \<Rightarrow> Inl t
      | (Inr input, t) \<Rightarrow>
          (let t1 = t @ snd (set_leds input (leds init_status))
                      @ [L2cap_listen L2CAP_PSM_HIDP_INTR li] in
           if li = - 1 then Inl (t1 @ [Close_fd input])
           else
             (let t2 = t1 @ [L2cap_listen L2CAP_PSM_HIDP_CTRL lc] in
              if lc = - 1 then Inl (t2 @ [Close_fd input, Close_fd li])
              else Inr (loop_start input li lc t2))))"

text \<open>
  \<^verbatim>\<open>session\<close> (lines 287 to 425): the value returned and the calls made, or \<open>None\<close>
  when the program still waits in \<^verbatim>\<open>poll\<close> after the wake-ups of the list.
\<close>

definition session ::
  "(u16 \<Rightarrow> int) \<Rightarrow> bool \<Rightarrow> open_env \<Rightarrow> int \<Rightarrow> int \<Rightarrow> poll_round list \<Rightarrow> (int \<times> io list) option" where
  "session linux2hid tgt_any oe li lc script =
     (case session_setup oe li lc of
        Inl t \<Rightarrow> Some (0, t)
      | Inr s0 \<Rightarrow>
          (case main_loop linux2hid tgt_any s0 script of
             Continue s \<Rightarrow> None
           | Break s \<Rightarrow> Some (1, ls_calls s @ cleanup s)))"

section \<open>Notions used to state the properties\<close>

text \<open>
  A slot is empty when it holds 0. The buffer is left-packed when no empty slot comes
  before an occupied one: after the first empty slot all slots are empty.
\<close>

fun left_packed :: "u8 list \<Rightarrow> bool" where
  "left_packed [] = True"
| "left_packed (x # xs) = (if x = 0 then list_all (\<lambda>y. y = 0) xs else left_packed xs)"

text \<open>
  The first slot, from index \<open>i\<close> on, that holds the code \<open>c\<close> or is empty: the slot at
  which the loop acts.
\<close>

definition first_slot :: "int \<Rightarrow> nat \<Rightarrow> u8 list \<Rightarrow> nat option" where
  "first_slot c i k = List.find (\<lambda>j. uint (k ! j) = c \<or> k ! j = 0) [i..<6]"

text \<open>
  An event for a key that is not a modifier and that \<^verbatim>\<open>input_event\<close> does not ignore:
  it reaches the loop over the slots.
\<close>

definition key_event :: "evdev_event \<Rightarrow> bool" where
  "key_event ev = (ev_type ev = EV_KEY \<and> ev_code ev < 256 \<and> modifier_of (ev_code ev) = 0)"

text \<open>
  The status after a sequence of calls of \<^verbatim>\<open>input_event\<close>, each given with what its
  read and its write return.
\<close>

definition after_events ::
  "(u16 \<Rightarrow> int) \<Rightarrow> int \<Rightarrow> int \<Rightarrow> int \<Rightarrow> status \<Rightarrow> ((int \<times> evdev_event) \<times> int) list \<Rightarrow> status" where
  "after_events linux2hid input ctrl intr st evs =
     foldl (\<lambda>s e. fst (snd (input_event linux2hid s input ctrl intr (fst e) (snd e)))) st evs"

text \<open>A status whose buffer has its six slots and is left-packed.\<close>

definition packed_status :: "status \<Rightarrow> bool" where
  "packed_status st = (length (key (report st)) = 6 \<and> left_packed (key (report st)))"

text \<open>
  No code is held twice: an occupied slot differs from every later slot.
\<close>

fun no_duplicates :: "u8 list \<Rightarrow> bool" where
  "no_duplicates [] = True"
| "no_duplicates (x # xs) = ((x = 0 \<or> x \<notin> set xs) \<and> no_duplicates xs)"

text \<open>A status whose buffer is left-packed with six slots and holds no code twice.\<close>

definition distinct_status :: "status \<Rightarrow> bool" where
  "distinct_status st = (packed_status st \<and> no_duplicates (key (report st)))"

text \<open>
  A table whose entries are bytes, as the entries of a table of usage codes are; stored
  in a slot, such an entry keeps its value.
\<close>

definition byte_table :: "(u16 \<Rightarrow> int) \<Rightarrow> bool" where
  "byte_table linux2hid = (\<forall>c. 0 \<le> linux2hid c \<and> linux2hid c < 256)"

text \<open>All bytes written with \<^verbatim>\<open>write (fd, bytes, n)\<close> in a trace: the replies to the host.\<close>

fun reply_bytes :: "io list \<Rightarrow> u8 list" where
  "reply_bytes [] = []"
| "reply_bytes (Write_bytes fd bs # t) = bs @ reply_bytes t"
| "reply_bytes (x # t) = reply_bytes t"

text \<open>Whether the loop has been left.\<close>

fun left_loop :: "'a flow \<Rightarrow> bool" where
  "left_loop (Break s) = True"
| "left_loop (Continue s) = False"

subsection \<open>Sample inputs\<close>

text \<open>
  A table for the examples: the usage codes of the keys A, B, C, D, E, F and G (key codes
  30, 48, 46, 32, 18, 33 and 34), 0 for every other key.
\<close>

definition linux2hid_sample :: "u16 \<Rightarrow> int" where
  "linux2hid_sample c =
     (if c = 30 then 4 else if c = 48 then 5 else if c = 46 then 6 else if c = 32 then 7
      else if c = 18 then 8 else if c = 33 then 9 else if c = 34 then 10 else 0)"

text \<open>The initial status with the given key slots, and a press and a release of a key.\<close>

definition keys_status :: "u8 list \<Rightarrow> status" where
  "keys_status ks = init_status\<lparr>report := (report init_status)\<lparr>key := ks\<rparr>\<rparr>"

definition key_press :: "u16 \<Rightarrow> evdev_event" where
  "key_press c = \<lparr>ev_type = EV_KEY, ev_code = c, ev_value = 1\<rparr>"

definition key_release :: "u16 \<Rightarrow> evdev_event" where
  "key_release c = \<lparr>ev_type = EV_KEY, ev_code = c, ev_value = 0\<rparr>"

text \<open>
  A keyboard that passes every check of \<^verbatim>\<open>input_open\<close>, and a wake-up with no event
  pending.
\<close>

definition sample_open_env :: open_env where
  "sample_open_env =
     \<lparr>open_ret = 3, version_ret = 0, version = 0x010001, bit_ret = 0, features = 0x120013,
      grab_ret = 0, rep_ret = 0\<rparr>"

definition sample_round :: poll_round where
  "sample_round =
     \<lparr>poll_ret = 1, re_input = 0, re_control = 0, re_intr = 0, re_scontrol = 0, re_sintr = 0,
      connect_ctrl = - 1, connect_intr = - 1, input_read = (sizeof_event, key_press 30),
      report_write = 9, control_read = (3, [0xa2, 0x01, 0x07]), intr_read = (0, []),
      accept_ctrl = 8, accept_intr = 9\<rparr>"

section \<open>The loop over the key slots\<close>

lemma first_slot_ge: "6 \<le> i \<Longrightarrow> first_slot c i k = None"
  by (simp add: first_slot_def)

lemma first_slot_step: "i < 6 \<Longrightarrow> first_slot c i k =
   (if uint (k ! i) = c \<or> k ! i = 0 then Some i else first_slot c (Suc i) k)"
  by (simp add: first_slot_def upt_conv_Cons)

lemma key_loop_press:
  assumes "v \<noteq> 0" "length k = 6"
  shows "key_loop v c i k = (case first_slot c i k of None \<Rightarrow> k | Some j \<Rightarrow> k[j := word_of_int c])"
proof (induction "6 - i" arbitrary: i)
  case 0
  then show ?case by (simp add: key_loop.simps first_slot_ge)
next
  case (Suc n)
  then have i: "i < 6" and ih: "key_loop v c (Suc i) k = (case first_slot c (Suc i) k of None \<Rightarrow> k | Some j \<Rightarrow> k[j := word_of_int c])"
    by auto
  show ?case
    using assms i ih
    by (subst key_loop.simps) (auto simp: first_slot_step Let_def)
qed

lemma key_loop_hole:
  "length k = 6 \<Longrightarrow> i < 6 \<Longrightarrow> k ! i = 0 \<Longrightarrow> key_loop 0 c i k = take i k @ drop (Suc i) k @ [0]"
proof (induction "6 - i" arbitrary: i k)
  case 0
  then show ?case by simp
next
  case (Suc n)
  show ?case
  proof (cases "i < 5")
    case True
    let ?k2 = "(k[i := k ! (i + 1)])[i + 1 := 0]"
    have "key_loop 0 c (Suc i) ?k2 = take (Suc i) ?k2 @ drop (Suc (Suc i)) ?k2 @ [0]"
      using Suc True by (intro Suc.hyps(1)) auto
    moreover have "key_loop 0 c i k = key_loop 0 c (Suc i) ?k2"
      using Suc.prems True by (subst key_loop.simps) (auto simp: Let_def)
    moreover have "take (Suc i) ?k2 @ drop (Suc (Suc i)) ?k2 @ [0] = take i k @ drop (Suc i) k @ [0]"
      using Suc.prems True
      by (simp add: take_Suc_conv_app_nth Cons_nth_drop_Suc[symmetric] drop_update_cancel take_update_cancel)
    ultimately show ?thesis by simp
  next
    case False
    with Suc.prems have i5: "i = 5" by simp
    have "key_loop 0 c i k = k"
      using Suc.prems i5 by (subst key_loop.simps) (auto simp: Let_def key_loop.simps list_update_same_conv)
    moreover have "take 5 k @ drop 6 k @ [0] = k"
      using Suc.prems i5 by (intro nth_equalityI) (auto simp: nth_append less_Suc_eq numeral_eq_Suc)
    ultimately show ?thesis using i5 by simp
  qed
qed

lemma key_loop_release:
  assumes "length k = 6"
  shows "key_loop 0 c i k = (case first_slot c i k of None \<Rightarrow> k | Some j \<Rightarrow> take j k @ drop (Suc j) k @ [0])"
proof (induction "6 - i" arbitrary: i)
  case 0
  then show ?case by (simp add: key_loop.simps first_slot_ge)
next
  case (Suc n)
  then have i: "i < 6" and ih: "key_loop 0 c (Suc i) k = (case first_slot c (Suc i) k of None \<Rightarrow> k | Some j \<Rightarrow> take j k @ drop (Suc j) k @ [0])"
    by auto
  show ?case
  proof (cases "uint (k ! i) = c \<or> k ! i = 0")
    case True
    have "key_loop 0 c i k = key_loop 0 c i (k[i := 0])"
    proof (cases "k ! i = 0")
      case True
      then have "k[i := 0] = k" by (metis list_update_id)
      then show ?thesis by simp
    next
      case False
      with True have "uint (k ! i) = c" by simp
      then show ?thesis
        using assms i by (subst key_loop.simps, subst (2) key_loop.simps) (simp add: Let_def)
    qed
    also have "\<dots> = take i (k[i := 0]) @ drop (Suc i) (k[i := 0]) @ [0]"
      using assms i by (intro key_loop_hole) auto
    finally show ?thesis using True i by (simp add: first_slot_step)
  next
    case False
    then show ?thesis using assms i ih
      by (subst key_loop.simps) (auto simp: first_slot_step Let_def)
  qed
qed

lemma left_packed_iff:
  "left_packed k \<longleftrightarrow> (\<forall>a b. a < b \<longrightarrow> b < length k \<longrightarrow> k ! a = 0 \<longrightarrow> k ! b = 0)"
proof (induction k)
  case Nil
  then show ?case by simp
next
  case (Cons x xs)
  show ?case
  proof (cases "x = 0")
    case True
    have "list_all (\<lambda>y. y = 0) xs \<longleftrightarrow> (\<forall>a b. a < b \<longrightarrow> b < length (x # xs) \<longrightarrow> (x # xs) ! a = 0 \<longrightarrow> (x # xs) ! b = 0)"
    proof
      assume "list_all (\<lambda>y. y = 0) xs"
      then show "\<forall>a b. a < b \<longrightarrow> b < length (x # xs) \<longrightarrow> (x # xs) ! a = 0 \<longrightarrow> (x # xs) ! b = 0"
        by (auto simp: list_all_length nth_Cons split: nat.splits)
    next
      assume h: "\<forall>a b. a < b \<longrightarrow> b < length (x # xs) \<longrightarrow> (x # xs) ! a = 0 \<longrightarrow> (x # xs) ! b = 0"
      show "list_all (\<lambda>y. y = 0) xs"
        unfolding list_all_length
      proof (intro allI impI)
        fix n assume "n < length xs"
        with h[rule_format, of 0 "Suc n"] True show "xs ! n = 0" by simp
      qed
    qed
    with True show ?thesis by simp
  next
    case False
    have "(\<forall>a b. a < b \<longrightarrow> b < length xs \<longrightarrow> xs ! a = 0 \<longrightarrow> xs ! b = 0)
       \<longleftrightarrow> (\<forall>a b. a < b \<longrightarrow> b < length (x # xs) \<longrightarrow> (x # xs) ! a = 0 \<longrightarrow> (x # xs) ! b = 0)"
    proof
      assume h: "\<forall>a b. a < b \<longrightarrow> b < length xs \<longrightarrow> xs ! a = 0 \<longrightarrow> xs ! b = 0"
      show "\<forall>a b. a < b \<longrightarrow> b < length (x # xs) \<longrightarrow> (x # xs) ! a = 0 \<longrightarrow> (x # xs) ! b = 0"
      proof (intro allI impI)
        fix a b assume ab: "a < b" "b < length (x # xs)" "(x # xs) ! a = 0"
        with False obtain a' where a': "a = Suc a'" by (cases a) auto
        from ab obtain b' where b': "b = Suc b'" by (cases b) auto
        from h[rule_format, of a' b'] ab a' b' show "(x # xs) ! b = 0" by simp
      qed
    next
      assume h: "\<forall>a b. a < b \<longrightarrow> b < length (x # xs) \<longrightarrow> (x # xs) ! a = 0 \<longrightarrow> (x # xs) ! b = 0"
      show "\<forall>a b. a < b \<longrightarrow> b < length xs \<longrightarrow> xs ! a = 0 \<longrightarrow> xs ! b = 0"
      proof (intro allI impI)
        fix a b assume "a < b" "b < length xs" "xs ! a = 0"
        with h[rule_format, of "Suc a" "Suc b"] show "xs ! b = 0" by simp
      qed
    qed
    with False Cons.IH show ?thesis by simp
  qed
qed

lemma first_slot_SomeD:
  assumes "first_slot c 0 k = Some m"
  shows "m < 6" "uint (k ! m) = c \<or> k ! m = 0" "\<And>j. j < m \<Longrightarrow> uint (k ! j) \<noteq> c \<and> k ! j \<noteq> 0"
proof -
  from assms obtain i where i: "i < length [0..<6::nat]" "uint (k ! ([0..<6] ! i)) = c \<or> k ! ([0..<6] ! i) = 0"
      "m = [0..<6] ! i" "\<forall>j<i. \<not> (uint (k ! ([0..<6] ! j)) = c \<or> k ! ([0..<6] ! j) = 0)"
    unfolding first_slot_def find_Some_iff by blast
  from i(1) have i6: "i < 6" by simp
  with i(3) have mi: "m = i" by (simp del: upt_Suc)
  show "m < 6" using mi i6 by simp
  show "uint (k ! m) = c \<or> k ! m = 0" using i(2) i6 mi by (simp del: upt_Suc)
  fix j assume "j < m"
  with i(4) mi i6 show "uint (k ! j) \<noteq> c \<and> k ! j \<noteq> 0"
    by (auto simp del: upt_Suc)
qed

lemma first_slot_NoneD:
  assumes "first_slot c 0 k = None" "j < 6"
  shows "uint (k ! j) \<noteq> c \<and> k ! j \<noteq> 0"
  using assms unfolding first_slot_def find_None_iff by auto

lemma first_slot_SomeI:
  assumes "m < 6" "uint (k ! m) = c \<or> k ! m = 0" "\<And>j. j < m \<Longrightarrow> uint (k ! j) \<noteq> c \<and> k ! j \<noteq> 0"
  shows "first_slot c 0 k = Some m"
proof (cases "first_slot c 0 k")
  case None
  from first_slot_NoneD[OF None assms(1)] assms(2) show ?thesis by simp
next
  case (Some m')
  note d = first_slot_SomeD[OF Some]
  have "\<not> m' < m" using assms(3)[of m'] d(2) by auto
  moreover have "\<not> m < m'" using d(3)[of m] assms(2) by auto
  ultimately show ?thesis using Some by simp
qed

lemma removed_nth:
  "length k = 6 \<Longrightarrow> m < 6 \<Longrightarrow> j < 6 \<Longrightarrow>
   (take m k @ drop (Suc m) k @ [0]) ! j = (if j < m then k ! j else if j < 5 then k ! Suc j else 0)"
  by (auto simp: nth_append min_def)

lemma left_packed_removed:
  assumes "length k = 6" "m < 6" "left_packed k"
  shows "left_packed (take m k @ drop (Suc m) k @ [0])"
proof -
  have len: "length (take m k @ drop (Suc m) k @ [0]) = 6" using assms by simp
  from assms(3) have lp: "\<And>a b. a < b \<Longrightarrow> b < 6 \<Longrightarrow> k ! a = 0 \<Longrightarrow> k ! b = 0"
    using assms(1) by (simp add: left_packed_iff)
  show ?thesis
    unfolding left_packed_iff len
  proof (intro allI impI)
    fix a b :: nat assume ab: "a < b" "b < 6" and z: "(take m k @ drop (Suc m) k @ [0]) ! a = 0"
    from ab have a6: "a < 6" by simp
    show "(take m k @ drop (Suc m) k @ [0]) ! b = 0"
      using z ab lp[of a b] lp[of a "Suc b"] lp[of "Suc a" "Suc b"]
      by (simp add: removed_nth[OF assms(1,2)] a6 split: if_splits)
  qed
qed

lemma left_packed_placed:
  assumes "length k = 6" "left_packed k" "first_slot c 0 k = Some m"
  shows "left_packed (k[m := word_of_int c])"
proof (cases "k ! m = 0")
  case True
  note d = first_slot_SomeD[OF assms(3)]
  from assms(2) have lp: "\<And>a b. a < b \<Longrightarrow> b < 6 \<Longrightarrow> k ! a = 0 \<Longrightarrow> k ! b = 0"
    using assms(1) by (simp add: left_packed_iff)
  show ?thesis
    unfolding left_packed_iff
  proof (intro allI impI)
    fix a b :: nat assume ab: "a < b" "b < length (k[m := word_of_int c])" and z: "k[m := word_of_int c] ! a = 0"
    have "m \<le> a" using d(3)[of a] z ab assms(1) by (cases "a < m") auto
    then have "m < b" using ab by simp
    then show "k[m := word_of_int c] ! b = 0" using lp[of m b] True ab assms(1) by simp
  qed
next
  case False
  with first_slot_SomeD(2)[OF assms(3)] have "uint (k ! m) = c" by simp
  then have "word_of_int c = k ! m" by auto
  then have "k[m := word_of_int c] = k" by (metis list_update_id)
  with assms(2) show ?thesis by simp
qed

lemma input_event_key:
  assumes "key_event ev"
  shows "input_event tbl st input ctrl intr (sizeof_event, ev) w =
     (if w \<le> 0 then Some SendError else None,
      st\<lparr>report := (report st)\<lparr>key := key_loop (ev_value ev) (tbl (ev_code ev)) 0 (key (report st))\<rparr>\<rparr>,
      [Write_bytes intr (report_bytes ((report st)\<lparr>key := key_loop (ev_value ev) (tbl (ev_code ev)) 0 (key (report st))\<rparr>))])"
  using assms by (simp add: input_event_def key_event_def Let_def sizeof_event_def word_less_def word_le_def)

lemma byte_of_uint: "uint (x :: u8) = c \<Longrightarrow> word_of_int c = x"
  by auto

lemma key_loop_inv:
  assumes "length k = 6" "left_packed k"
  shows "length (key_loop v c 0 k) = 6 \<and> left_packed (key_loop v c 0 k)"
proof (cases "first_slot c 0 k")
  case None
  then show ?thesis using assms
    by (cases "v = 0") (simp_all add: key_loop_release key_loop_press)
next
  case (Some m)
  note d = first_slot_SomeD[OF Some]
  show ?thesis
  proof (cases "v = 0")
    case True
    then show ?thesis using assms Some d(1) left_packed_removed[OF assms(1) d(1) assms(2)]
      by (simp add: key_loop_release)
  next
    case False
    then show ?thesis using assms Some left_packed_placed[OF assms Some]
      by (simp add: key_loop_press)
  qed
qed

lemma input_event_keys:
  "key (report (fst (snd (input_event tbl st input ctrl intr rd w)))) = key (report st)
   \<or> (\<exists>v c. key (report (fst (snd (input_event tbl st input ctrl intr rd w)))) = key_loop v c 0 (key (report st)))"
  by (auto simp: input_event_def Let_def)

lemma input_event_inv:
  assumes "length (key (report st)) = 6" "left_packed (key (report st))"
  shows "length (key (report (fst (snd (input_event tbl st input ctrl intr rd w))))) = 6
       \<and> left_packed (key (report (fst (snd (input_event tbl st input ctrl intr rd w)))))"
  using input_event_keys[of tbl st input ctrl intr rd w] key_loop_inv[OF assms] assms
  by auto

lemma after_events_inv:
  "length (key (report st)) = 6 \<Longrightarrow> left_packed (key (report st)) \<Longrightarrow>
   length (key (report (after_events tbl input ctrl intr st evs))) = 6
     \<and> left_packed (key (report (after_events tbl input ctrl intr st evs)))"
proof (induction evs arbitrary: st)
  case Nil
  then show ?case by (simp add: after_events_def)
next
  case (Cons e es)
  from input_event_inv[OF Cons.prems, of tbl input ctrl intr "fst e" "snd e"]
  have "length (key (report (after_events tbl input ctrl intr (fst (snd (input_event tbl st input ctrl intr (fst e) (snd e)))) es))) = 6
     \<and> left_packed (key (report (after_events tbl input ctrl intr (fst (snd (input_event tbl st input ctrl intr (fst e) (snd e)))) es)))"
    by (intro Cons.IH) auto
  then show ?case by (simp add: after_events_def)
qed

lemma no_duplicates_iff:
  "no_duplicates k \<longleftrightarrow> (\<forall>a b. a < b \<longrightarrow> b < length k \<longrightarrow> k ! a \<noteq> 0 \<longrightarrow> k ! a \<noteq> k ! b)"
proof (induction k)
  case Nil
  then show ?case by simp
next
  case (Cons x xs)
  have head: "(x = 0 \<or> x \<notin> set xs) \<longleftrightarrow> (\<forall>n. n < length xs \<longrightarrow> x \<noteq> 0 \<longrightarrow> x \<noteq> xs ! n)"
    by (auto simp: in_set_conv_nth)
  have "(\<forall>a b. a < b \<longrightarrow> b < length (x # xs) \<longrightarrow> (x # xs) ! a \<noteq> 0 \<longrightarrow> (x # xs) ! a \<noteq> (x # xs) ! b)
      \<longleftrightarrow> (\<forall>n. n < length xs \<longrightarrow> x \<noteq> 0 \<longrightarrow> x \<noteq> xs ! n)
          \<and> (\<forall>a b. a < b \<longrightarrow> b < length xs \<longrightarrow> xs ! a \<noteq> 0 \<longrightarrow> xs ! a \<noteq> xs ! b)"
    (is "?L \<longleftrightarrow> ?H \<and> ?T")
  proof
    assume l: ?L
    have ?H
    proof (intro allI impI)
      fix n assume "n < length xs" "x \<noteq> 0"
      with l[rule_format, of 0 "Suc n"] show "x \<noteq> xs ! n" by simp
    qed
    moreover have ?T
    proof (intro allI impI)
      fix a b assume "a < b" "b < length xs" "xs ! a \<noteq> 0"
      with l[rule_format, of "Suc a" "Suc b"] show "xs ! a \<noteq> xs ! b" by simp
    qed
    ultimately show "?H \<and> ?T" by simp
  next
    assume ht: "?H \<and> ?T"
    show ?L
    proof (intro allI impI)
      fix a b assume ab: "a < b" "b < length (x # xs)" "(x # xs) ! a \<noteq> 0"
      from ab obtain b' where b': "b = Suc b'" by (cases b) auto
      show "(x # xs) ! a \<noteq> (x # xs) ! b"
      proof (cases a)
        case 0
        with ab b' ht show ?thesis by simp
      next
        case (Suc a')
        with ab b' ht show ?thesis by simp
      qed
    qed
  qed
  with head Cons.IH show ?case by simp
qed

lemma removed_same:
  assumes len: "length k = 6" and lp: "left_packed k"
    and m: "m \<le> i" "i < 6" "k ! m = 0"
  shows "take m k @ drop (Suc m) k @ [0] = take i k @ drop (Suc i) k @ [0]"
proof (rule nth_equalityI)
  show "length (take m k @ drop (Suc m) k @ [0]) = length (take i k @ drop (Suc i) k @ [0])"
    using len m by simp
next
  fix j assume "j < length (take m k @ drop (Suc m) k @ [0])"
  with len m have j: "j < 6" by simp
  have z: "\<And>b. m \<le> b \<Longrightarrow> b < 6 \<Longrightarrow> k ! b = 0"
  proof -
    fix b assume "m \<le> b" "b < 6"
    show "k ! b = 0"
    proof (cases "m = b")
      case True
      with m(3) show ?thesis by simp
    next
      case False
      with \<open>m \<le> b\<close> have "m < b" by simp
      moreover have "\<forall>a b. a < b \<longrightarrow> b < length k \<longrightarrow> k ! a = 0 \<longrightarrow> k ! b = 0"
        using lp by (simp add: left_packed_iff)
      ultimately show ?thesis using \<open>b < 6\<close> len m(3) by simp
    qed
  qed
  have m6: "m < 6" using m by simp
  show "(take m k @ drop (Suc m) k @ [0]) ! j = (take i k @ drop (Suc i) k @ [0]) ! j"
    using z[of j] z[of "Suc j"] m j
    by (simp add: removed_nth[OF len m6 j] removed_nth[OF len m(2) j])
qed

lemma release_at_held_slot:
  assumes len: "length k = 6" and lp: "left_packed k" and nd: "no_duplicates k"
    and i: "i < 6" "uint (k ! i) = c"
  shows "key_loop 0 c 0 k = take i k @ drop (Suc i) k @ [0]"
proof -
  have lpi: "\<And>a b. a < b \<Longrightarrow> b < 6 \<Longrightarrow> k ! a = 0 \<Longrightarrow> k ! b = 0"
    using len lp by (simp add: left_packed_iff)
  have ndi: "\<And>a b. a < b \<Longrightarrow> b < 6 \<Longrightarrow> k ! a \<noteq> 0 \<Longrightarrow> k ! a \<noteq> k ! b"
    using len nd by (simp add: no_duplicates_iff)
  have "first_slot c 0 k \<noteq> None"
    using first_slot_NoneD[of c k i] i by auto
  then obtain m where m: "first_slot c 0 k = Some m" by auto
  note d = first_slot_SomeD[OF m]
  have mi: "m \<le> i" using d(3)[of i] i by (cases "i < m") auto
  have "take m k @ drop (Suc m) k @ [0] = take i k @ drop (Suc i) k @ [0]"
  proof (cases "k ! m = 0")
    case True
    then show ?thesis using removed_same[OF len lp mi i(1)] by simp
  next
    case False
    with d(2) have um: "uint (k ! m) = c" by simp
    have "m = i"
    proof (rule ccontr)
      assume "m \<noteq> i"
      with mi have "m < i" by simp
      from ndi[OF this i(1) False] um i(2) show False by (metis word_uint_eq_iff)
    qed
    then show ?thesis by simp
  qed
  then show ?thesis using len m by (simp add: key_loop_release)
qed

lemma no_duplicates_removed:
  assumes len: "length k = 6" and m: "m < 6" and nd: "no_duplicates k"
  shows "no_duplicates (take m k @ drop (Suc m) k @ [0])"
proof -
  have l6: "length (take m k @ drop (Suc m) k @ [0]) = 6" using len m by simp
  have ndi: "\<And>a b. a < b \<Longrightarrow> b < 6 \<Longrightarrow> k ! a \<noteq> 0 \<Longrightarrow> k ! a \<noteq> k ! b"
    using len nd by (simp add: no_duplicates_iff)
  show ?thesis
    unfolding no_duplicates_iff l6
  proof (intro allI impI)
    fix a b :: nat
    assume ab: "a < b" "b < 6" and nz: "(take m k @ drop (Suc m) k @ [0]) ! a \<noteq> 0"
    from ab have a6: "a < 6" by simp
    show "(take m k @ drop (Suc m) k @ [0]) ! a \<noteq> (take m k @ drop (Suc m) k @ [0]) ! b"
      using nz ab ndi[of a b] ndi[of a "Suc b"] ndi[of "Suc a" "Suc b"]
      by (simp add: removed_nth[OF len m] a6 split: if_splits)
  qed
qed

lemma no_duplicates_placed:
  assumes len: "length k = 6" and lp: "left_packed k" and nd: "no_duplicates k"
    and c: "0 \<le> c" "c < 256" and m: "first_slot c 0 k = Some m"
  shows "no_duplicates (k[m := word_of_int c])"
proof (cases "k ! m = 0")
  case True
  note d = first_slot_SomeD[OF m]
  have lpi: "\<And>a b. a < b \<Longrightarrow> b < 6 \<Longrightarrow> k ! a = 0 \<Longrightarrow> k ! b = 0"
    using len lp by (simp add: left_packed_iff)
  have ndi: "\<And>a b. a < b \<Longrightarrow> b < 6 \<Longrightarrow> k ! a \<noteq> 0 \<Longrightarrow> k ! a \<noteq> k ! b"
    using len nd by (simp add: no_duplicates_iff)
  have uw: "uint (word_of_int c :: u8) = c"
    using c by (simp add: uint_word_of_int take_bit_int_eq_self)
  show ?thesis
    unfolding no_duplicates_iff
  proof (intro allI impI)
    fix a b :: nat
    assume ab: "a < b" "b < length (k[m := word_of_int c])"
      and nz: "k[m := word_of_int c] ! a \<noteq> 0"
    from ab len have b6: "b < 6" and a6: "a < 6" by simp_all
    show "k[m := word_of_int c] ! a \<noteq> k[m := word_of_int c] ! b"
    proof (cases "m < b")
      case True
      with lpi[of m b] \<open>k ! m = 0\<close> b6 have "k ! b = 0" by simp
      with True nz show ?thesis by simp
    next
      case False
      then have bm: "b \<le> m" by simp
      with ab have am: "a < m" by simp
      show ?thesis
      proof (cases "b = m")
        case True
        have "uint (k ! a) \<noteq> c" using d(3)[OF am] by simp
        with uw have "k ! a \<noteq> word_of_int c" by auto
        with True am len d(1) show ?thesis by simp
      next
        case False
        with bm have "b < m" by simp
        with am ndi[of a b] ab b6 nz show ?thesis by simp
      qed
    qed
  qed
next
  case False
  with first_slot_SomeD(2)[OF m] have "uint (k ! m) = c" by simp
  then have "word_of_int c = k ! m" by (rule byte_of_uint)
  then have "k[m := word_of_int c] = k" by (metis list_update_id)
  with nd show ?thesis by simp
qed

lemma key_loop_no_duplicates:
  assumes "length k = 6" "left_packed k" "no_duplicates k" "0 \<le> c" "c < 256"
  shows "no_duplicates (key_loop v c 0 k)"
proof (cases "first_slot c 0 k")
  case None
  then show ?thesis using assms
    by (cases "v = 0") (simp_all add: key_loop_release key_loop_press)
next
  case (Some m)
  note d = first_slot_SomeD[OF Some]
  show ?thesis
  proof (cases "v = 0")
    case True
    then show ?thesis using assms(1) Some no_duplicates_removed[OF assms(1) d(1) assms(3)]
      by (simp add: key_loop_release)
  next
    case False
    then show ?thesis using assms(1) Some no_duplicates_placed[OF assms Some]
      by (simp add: key_loop_press)
  qed
qed

lemma input_event_table_keys:
  "key (report (fst (snd (input_event tbl st input ctrl intr rd w)))) = key (report st)
   \<or> (\<exists>v c. key (report (fst (snd (input_event tbl st input ctrl intr rd w))))
              = key_loop v (tbl c) 0 (key (report st)))"
  by (auto simp: input_event_def Let_def)

lemma input_event_distinct:
  assumes "byte_table tbl" "distinct_status st"
  shows "distinct_status (fst (snd (input_event tbl st input ctrl intr rd w)))"
proof -
  from assms(2) have p: "length (key (report st)) = 6" "left_packed (key (report st))"
      "no_duplicates (key (report st))"
    by (simp_all add: distinct_status_def packed_status_def)
  have k: "\<And>v c. no_duplicates (key_loop v (tbl c) 0 (key (report st)))"
    using assms(1) by (intro key_loop_no_duplicates p) (simp_all add: byte_table_def)
  have "no_duplicates (key (report (fst (snd (input_event tbl st input ctrl intr rd w)))))"
    using input_event_table_keys[of tbl st input ctrl intr rd w] k p(3) by auto
  with input_event_inv[OF p(1,2), of tbl input ctrl intr rd w] show ?thesis
    by (simp add: distinct_status_def packed_status_def)
qed

lemma after_events_distinct:
  "byte_table tbl \<Longrightarrow> distinct_status st \<Longrightarrow>
   distinct_status (after_events tbl input ctrl intr st evs)"
proof (induction evs arbitrary: st)
  case Nil
  then show ?case by (simp add: after_events_def)
next
  case (Cons e es)
  have "distinct_status (after_events tbl input ctrl intr
          (fst (snd (input_event tbl st input ctrl intr (fst e) (snd e)))) es)"
    using Cons.prems by (intro Cons.IH input_event_distinct)
  then show ?case by (simp add: after_events_def)
qed

lemma key_event_sample:
  "key_event (key_press 30)" "key_event (key_release 30)" "key_event (key_press 48)"
  "key_event (key_release 48)" "key_event (key_press 35)"
  by (simp_all add: key_event_def key_press_def key_release_def EV_KEY_def modifier_of_def
      KEY_LEFTCTRL_def KEY_LEFTSHIFT_def KEY_LEFTALT_def KEY_RIGHTCTRL_def KEY_RIGHTSHIFT_def
      KEY_RIGHTALT_def)

lemma sample_codes:
  "linux2hid_sample (ev_code (key_press 30)) = 4" "linux2hid_sample (ev_code (key_release 30)) = 4"
  "linux2hid_sample (ev_code (key_press 48)) = 5" "linux2hid_sample (ev_code (key_release 48)) = 5"
  "linux2hid_sample (ev_code (key_press 35)) = 0"
  "ev_value (key_press c) = 1" "ev_value (key_release c) = 0"
  by (simp_all add: linux2hid_sample_def key_press_def key_release_def)

lemma keys_status_simps:
  "key (report (keys_status ks)) = ks" "mods (report (keys_status ks)) = 0"
  "init_status = keys_status [0, 0, 0, 0, 0, 0]"
  by (simp_all add: keys_status_def init_status_def)

lemma sample_step:
  "key_event ev \<Longrightarrow>
   fst (snd (input_event tbl (keys_status ks) a b c (sizeof_event, ev) w))
     = keys_status (key_loop (ev_value ev) (tbl (ev_code ev)) 0 ks)"
  by (simp add: input_event_key keys_status_def)

lemma key_loop_samples:
  "key_loop 1 4 0 [0, 0, 0, 0, 0, 0] = [4, 0, 0, 0, 0, 0]"
  "key_loop 1 5 0 [4, 0, 0, 0, 0, 0] = [4, 5, 0, 0, 0, 0]"
  "key_loop 0 4 0 [4, 5, 0, 0, 0, 0] = [5, 0, 0, 0, 0, 0]"
  "key_loop 0 5 0 [4, 5, 6, 0, 0, 0] = [4, 6, 0, 0, 0, 0]"
  "key_loop 1 5 0 [4, 5, 0, 0, 0, 0] = [4, 5, 0, 0, 0, 0]"
  by (simp_all add: key_loop.simps)

section \<open>The handlers of the loop\<close>

lemma input_event_leds: "leds (fst (snd (input_event tbl st input ctrl intr rd w))) = leds st"
  by (simp add: input_event_def Let_def)

lemma btooth_command_status: "fst (snd (btooth_command st fd input rd)) = st"
  by (simp add: btooth_command_def Let_def)

lemma on_command_status: "ls_status (flow_state (on_command fd rd s)) = ls_status s"
  using btooth_command_status[of "ls_status s" fd "ls_input s" rd]
  by (auto simp: on_command_def emit_def Let_def split: prod.splits)

lemma leds_and_then:
  "leds (ls_status (flow_state x)) = a \<Longrightarrow>
   (\<And>s. leds (ls_status (flow_state (g s))) = leds (ls_status s)) \<Longrightarrow>
   leds (ls_status (flow_state (and_then x g))) = a"
  by (cases x) auto

lemma on_input_leds: "leds (ls_status (flow_state (on_input tbl any r s))) = leds (ls_status s)"
  unfolding on_input_def
  apply (rule leds_and_then)
   apply (simp add: emit_def Let_def)
  subgoal for s'
    using input_event_leds[of tbl "ls_status s'" "ls_input s'" "ls_control s'" "ls_intr s'"
        "input_read r" "report_write r"]
    by (auto simp: emit_def Let_def split: prod.splits)
  done

lemma on_scontrol_status: "ls_status (flow_state (on_scontrol r s)) = ls_status s"
  by (simp add: on_scontrol_def emit_def Let_def)

lemma on_sintr_status: "ls_status (flow_state (on_sintr r s)) = ls_status s"
  by (simp add: on_sintr_def emit_def Let_def)

lemma loop_body_leds: "leds (ls_status (flow_state (loop_body tbl any r s))) = leds (ls_status s)"
  unfolding loop_body_def Let_def
  by (intro leds_and_then) (simp_all add: on_input_leds on_command_status on_scontrol_status on_sintr_status)

lemma main_loop_leds:
  "leds (ls_status (flow_state (main_loop tbl any s script))) = leds (ls_status s)"
proof (induction script arbitrary: s)
  case Nil
  then show ?case by simp
next
  case (Cons r rs)
  show ?case
    using loop_body_leds[of tbl any r s] Cons.IH
    by (cases "loop_body tbl any r s") auto
qed

lemma input_event_packed:
  "packed_status st \<Longrightarrow> packed_status (fst (snd (input_event tbl st input ctrl intr rd w)))"
  using input_event_inv[of st tbl input ctrl intr rd w] by (simp add: packed_status_def)

lemma packed_and_then:
  "packed_status (ls_status (flow_state x)) \<Longrightarrow>
   (\<And>s. packed_status (ls_status s) \<Longrightarrow> packed_status (ls_status (flow_state (g s)))) \<Longrightarrow>
   packed_status (ls_status (flow_state (and_then x g)))"
  by (cases x) auto

lemma on_input_packed:
  "packed_status (ls_status s) \<Longrightarrow> packed_status (ls_status (flow_state (on_input tbl any r s)))"
  unfolding on_input_def
  apply (rule packed_and_then)
   apply (simp add: emit_def Let_def)
  subgoal for s'
    using input_event_packed[of "ls_status s'" tbl "ls_input s'" "ls_control s'" "ls_intr s'"
        "input_read r" "report_write r"]
    by (auto simp: emit_def Let_def split: prod.splits)
  done

lemma loop_body_packed:
  "packed_status (ls_status s) \<Longrightarrow> packed_status (ls_status (flow_state (loop_body tbl any r s)))"
  unfolding loop_body_def Let_def
  by (intro packed_and_then)
     (simp_all add: on_input_packed on_command_status on_scontrol_status on_sintr_status)

lemma main_loop_packed:
  "packed_status (ls_status s) \<Longrightarrow> packed_status (ls_status (flow_state (main_loop tbl any s script)))"
proof (induction script arbitrary: s)
  case Nil
  then show ?case by simp
next
  case (Cons r rs)
  show ?case
    using loop_body_packed[OF Cons.prems, of tbl any r] Cons.IH Cons.prems
    by (cases "loop_body tbl any r s") auto
qed

lemma loop_start_packed: "packed_status (ls_status (loop_start input li lc t))"
  by (simp add: packed_status_def loop_start_def init_status_def)

lemma distinct_and_then:
  "distinct_status (ls_status (flow_state x)) \<Longrightarrow>
   (\<And>s. distinct_status (ls_status s) \<Longrightarrow> distinct_status (ls_status (flow_state (g s)))) \<Longrightarrow>
   distinct_status (ls_status (flow_state (and_then x g)))"
  by (cases x) auto

lemma on_input_distinct:
  "byte_table tbl \<Longrightarrow> distinct_status (ls_status s) \<Longrightarrow>
   distinct_status (ls_status (flow_state (on_input tbl any r s)))"
  unfolding on_input_def
  apply (rule distinct_and_then)
   apply (simp add: emit_def Let_def)
  subgoal for s'
    using input_event_distinct[of tbl "ls_status s'" "ls_input s'" "ls_control s'" "ls_intr s'"
        "input_read r" "report_write r"]
    by (auto simp: emit_def Let_def split: prod.splits)
  done

lemma loop_body_distinct:
  "byte_table tbl \<Longrightarrow> distinct_status (ls_status s) \<Longrightarrow>
   distinct_status (ls_status (flow_state (loop_body tbl any r s)))"
  unfolding loop_body_def Let_def
  by (intro distinct_and_then)
     (simp_all add: on_input_distinct on_command_status on_scontrol_status on_sintr_status)

lemma main_loop_distinct:
  "byte_table tbl \<Longrightarrow> distinct_status (ls_status s) \<Longrightarrow>
   distinct_status (ls_status (flow_state (main_loop tbl any s script)))"
proof (induction script arbitrary: s)
  case Nil
  then show ?case by simp
next
  case (Cons r rs)
  show ?case
    using loop_body_distinct[OF Cons.prems, of any r] Cons.IH[OF Cons.prems(1)] Cons.prems
    by (cases "loop_body tbl any r s") auto
qed

lemma init_status_distinct: "distinct_status init_status"
  by (simp add: distinct_status_def packed_status_def init_status_def)

lemma byte_table_sample: "byte_table linux2hid_sample"
  by (simp add: byte_table_def linux2hid_sample_def)

lemma setup_fails_iff:
  "isl (session_setup oe li lc) = (isl (fst (input_open oe)) \<or> li = - 1 \<or> lc = - 1)"
  by (auto simp: session_setup_def Let_def split: prod.splits sum.splits)

lemma main_loop_ends:
  "\<exists>r \<in> set script. poll_ret r \<le> 0 \<Longrightarrow> left_loop (main_loop tbl any s script)"
  by (induction script arbitrary: s) (auto split: flow.splits)

lemma sample_open_ok: "input_open sample_open_env
     = (Inr 3, [Open_dev 3, Ioctl 3 EVIOCGVERSION, Ioctl 3 EVIOCGBIT, Ioctl 3 EVIOCGRAB, Ioctl 3 EVIOCSREP])"
  by (simp add: input_open_def sample_open_env_def Let_def EV_VERSION_def EV_KEY_def)

lemma any_target_scenario:
  "session linux2hid_sample True sample_open_env 6 7 [sample_round\<lparr>re_input := 1\<rparr>]
     = Some (1, [Open_dev 3, Ioctl 3 EVIOCGVERSION, Ioctl 3 EVIOCGBIT, Ioctl 3 EVIOCGRAB,
                 Ioctl 3 EVIOCSREP,
                 Write_event 3 (led_event LED_NUML False), Write_event 3 (led_event LED_CAPSL False),
                 Write_event 3 (led_event LED_SCROLLL False),
                 Write_event 3 (led_event LED_COMPOSE False), Write_event 3 (led_event LED_KANA False),
                 L2cap_listen L2CAP_PSM_HIDP_INTR 6, L2cap_listen L2CAP_PSM_HIDP_CTRL 7,
                 Close_fd 3, Close_fd 7, Close_fd 6])"
  by (simp add: session_def session_setup_def sample_open_ok Let_def set_leds_def init_status_def
      loop_start_def sample_round_def loop_body_def revents_of_def on_input_def cleanup_def)

section \<open>Properties of the key buffer\<close>

text \<open>
  Claim C1. Start from the initial status, whose six slots are empty, and apply any
  sequence of events. After each of them the buffer has six slots, is left-packed, and
  holds at most six different keys. The statement covers every prefix, since a prefix of
  a sequence is a sequence. It holds for any events at all, so in particular for presses
  and releases of keys that are not modifiers. The last part says the same of the status
  in every state of the loop of \<^verbatim>\<open>session\<close>, whatever the wake-ups.
\<close>

theorem rollover_invariant:
  "length (key (report (after_events linux2hid input ctrl intr init_status evs))) = 6
   \<and> left_packed (key (report (after_events linux2hid input ctrl intr init_status evs)))
   \<and> card (set (key (report (after_events linux2hid input ctrl intr init_status evs))) - {0}) \<le> 6
   \<and> packed_status (ls_status (flow_state
         (main_loop linux2hid tgt_any (loop_start input li lc t) script)))"
proof -
  let ?k = "key (report (after_events linux2hid input ctrl intr init_status evs))"
  have a: "length ?k = 6 \<and> left_packed ?k"
    by (rule after_events_inv) (simp_all add: init_status_def)
  have "card (set ?k - {0}) \<le> card (set ?k)"
    by (intro card_mono) auto
  also have "\<dots> \<le> length ?k" by (rule card_length)
  finally show ?thesis using a main_loop_packed[OF loop_start_packed] by simp
qed

theorem rollover_invariant_witness:
  "key (report (after_events linux2hid_sample 3 4 5 init_status
      [((sizeof_event, key_press 30), 9), ((sizeof_event, key_press 48), 9),
       ((sizeof_event, key_release 30), 9)])) = [5, 0, 0, 0, 0, 0]
   \<and> left_packed (key (report (after_events linux2hid_sample 3 4 5 init_status
      [((sizeof_event, key_press 30), 9), ((sizeof_event, key_press 48), 9),
       ((sizeof_event, key_release 30), 9)])))
   \<and> packed_status (ls_status (flow_state
         (main_loop linux2hid_sample False (loop_start 3 6 7 [])
            [sample_round\<lparr>re_scontrol := 1\<rparr>, sample_round\<lparr>re_input := 1\<rparr>])))"
  using rollover_invariant[of linux2hid_sample 3 4 5
      "[((sizeof_event, key_press 30), 9), ((sizeof_event, key_press 48), 9),
       ((sizeof_event, key_release 30), 9)]" False 6 7 "[]"
      "[sample_round\<lparr>re_scontrol := 1\<rparr>, sample_round\<lparr>re_input := 1\<rparr>]"]
  by (simp add: after_events_def keys_status_simps sample_step key_event_sample sample_codes
      key_loop_samples)

text \<open>
  Claim C2. When the buffer is left-packed and slot \<open>j\<close> already holds the code of the
  key, a press of that key leaves the status, and so every slot, as it was.
\<close>

theorem repress_is_noop:
  assumes "length (key (report st)) = 6" and "left_packed (key (report st))"
    and "key_event ev" and "ev_value ev \<noteq> 0"
    and "j < 6" and "uint (key (report st) ! j) = linux2hid (ev_code ev)"
  shows "fst (snd (input_event linux2hid st input ctrl intr (sizeof_event, ev) w)) = st"
proof -
  let ?k = "key (report st)" and ?c = "linux2hid (ev_code ev)"
  have "first_slot ?c 0 ?k \<noteq> None"
    using first_slot_NoneD[of ?c ?k j] assms(5,6) by auto
  then obtain m where m: "first_slot ?c 0 ?k = Some m" by auto
  note d = first_slot_SomeD[OF m]
  have mj: "m \<le> j" using d(3)[of j] assms(6) by (cases "j < m") auto
  have lp: "\<And>a b. a < b \<Longrightarrow> b < 6 \<Longrightarrow> ?k ! a = 0 \<Longrightarrow> ?k ! b = 0"
    using assms(1,2) by (simp add: left_packed_iff)
  have "word_of_int ?c = ?k ! m"
  proof (cases "?k ! m = 0")
    case True
    have "?k ! j = 0"
    proof (cases "m = j")
      case True
      with \<open>?k ! m = 0\<close> show ?thesis by simp
    next
      case False
      with mj have "m < j" by simp
      then show ?thesis using lp[of m j] True assms(5) by simp
    qed
    then have "?c = 0" using assms(6) by simp
    with True show ?thesis by simp
  next
    case False
    with d(2) have "uint (?k ! m) = ?c" by simp
    then show ?thesis by (rule byte_of_uint)
  qed
  then have "?k[m := word_of_int ?c] = ?k" by (metis list_update_id)
  then have "key_loop (ev_value ev) ?c 0 ?k = ?k"
    using assms(1,4) m by (simp add: key_loop_press)
  then show ?thesis using assms(3) by (simp add: input_event_key)
qed

theorem repress_is_noop_witness:
  "left_packed [4, 5, 0, 0, 0, 0]
   \<and> fst (snd (input_event linux2hid_sample (keys_status [4, 5, 0, 0, 0, 0]) 3 4 5
         (sizeof_event, key_press 48) 9)) = keys_status [4, 5, 0, 0, 0, 0]"
  using repress_is_noop[of "keys_status [4, 5, 0, 0, 0, 0]" "key_press 48" 1 linux2hid_sample 3 4 5 9]
    key_event_sample
  by (simp add: keys_status_simps sample_codes)

text \<open>
  Claim C3. When all six slots are occupied and none holds the code of the key, a press
  of that key is dropped: the loop returns the buffer as it was, the status (slots and
  modifier byte) is unchanged, and \<^verbatim>\<open>input_event\<close> reports no error of the drop. Its
  return value is the one of sending the report, as for any other key event: an error
  exactly when the write returns no positive value. The six codes need not be distinct
  for this.
\<close>

theorem seventh_press_dropped:
  assumes "length (key (report st)) = 6"
    and "list_all (\<lambda>x. x \<noteq> 0 \<and> uint x \<noteq> linux2hid (ev_code ev)) (key (report st))"
    and "key_event ev" and "ev_value ev \<noteq> 0"
  shows "key_loop (ev_value ev) (linux2hid (ev_code ev)) 0 (key (report st)) = key (report st)
       \<and> fst (snd (input_event linux2hid st input ctrl intr (sizeof_event, ev) w)) = st
       \<and> fst (input_event linux2hid st input ctrl intr (sizeof_event, ev) w)
           = (if w \<le> 0 then Some SendError else None)"
proof -
  let ?k = "key (report st)" and ?c = "linux2hid (ev_code ev)"
  have "first_slot ?c 0 ?k = None"
  proof (cases "first_slot ?c 0 ?k")
    case (Some m)
    from first_slot_SomeD(1,2)[OF Some] assms(1,2) show ?thesis
      by (auto simp: list_all_length)
  qed simp
  then have "key_loop (ev_value ev) ?c 0 ?k = ?k"
    using assms(1,4) by (simp add: key_loop_press)
  then show ?thesis using assms(3) by (simp add: input_event_key)
qed

theorem seventh_press_dropped_witness:
  "input_event linux2hid_sample (keys_status [4, 5, 6, 7, 8, 9]) 3 4 5 (sizeof_event, key_press 34) 9
     = (None, keys_status [4, 5, 6, 7, 8, 9],
        [Write_bytes 5 [0xa1, 0x01, 0, 0, 4, 5, 6, 7, 8, 9]])"
proof -
  have ke: "key_event (key_press 34)"
    by (simp add: key_event_def key_press_def EV_KEY_def modifier_of_def
      KEY_LEFTCTRL_def KEY_LEFTSHIFT_def KEY_LEFTALT_def KEY_RIGHTCTRL_def KEY_RIGHTSHIFT_def
      KEY_RIGHTALT_def)
  have c: "linux2hid_sample (ev_code (key_press 34)) = 10"
    by (simp add: linux2hid_sample_def key_press_def)
  have "key_loop (ev_value (key_press 34)) (linux2hid_sample (ev_code (key_press 34))) 0
          (key (report (keys_status [4, 5, 6, 7, 8, 9]))) = key (report (keys_status [4, 5, 6, 7, 8, 9]))"
    using seventh_press_dropped[of "keys_status [4, 5, 6, 7, 8, 9]" linux2hid_sample "key_press 34" 3 4 5 9] ke c
    by (simp add: keys_status_simps sample_codes)
  then show ?thesis
    using ke by (simp add: input_event_key keys_status_def init_status_def report_bytes_def
      HIDP_TRANS_DATA_def HIDP_DATA_RTYPE_INPUT_def)
qed

text \<open>
  Claim C4. When the buffer has its six slots, is left-packed and holds no code twice,
  and slot \<open>i\<close> holds the code of the key, a release of that key removes slot \<open>i\<close>,
  moves every later slot one position forward and empties the last slot, so the codes
  that remain keep their order and the buffer stays left-packed. The condition is an
  invariant of the program: with a table of bytes it holds after any sequence of events
  from the initial status, and in every state of the loop of \<^verbatim>\<open>session\<close>.
\<close>

theorem release_compacts:
  "(distinct_status st \<and> key_event ev \<and> ev_value ev = 0 \<and> i < 6
      \<and> uint (key (report st) ! i) = linux2hid (ev_code ev) \<longrightarrow>
      key (report (fst (snd (input_event linux2hid st input ctrl intr (sizeof_event, ev) w))))
         = take i (key (report st)) @ drop (Suc i) (key (report st)) @ [0]
      \<and> left_packed (key (report (fst (snd (input_event linux2hid st input ctrl intr (sizeof_event, ev) w))))))
   \<and> (byte_table linux2hid \<longrightarrow>
        distinct_status (after_events linux2hid input ctrl intr init_status evs)
        \<and> distinct_status (ls_status (flow_state
             (main_loop linux2hid tgt_any (loop_start input li lc t) script))))"
proof (intro conjI impI)
  assume a: "distinct_status st \<and> key_event ev \<and> ev_value ev = 0 \<and> i < 6
      \<and> uint (key (report st) ! i) = linux2hid (ev_code ev)"
  then have p: "length (key (report st)) = 6" "left_packed (key (report st))"
      "no_duplicates (key (report st))"
    by (simp_all add: distinct_status_def packed_status_def)
  from a have r: "key_loop (ev_value ev) (linux2hid (ev_code ev)) 0 (key (report st))
      = take i (key (report st)) @ drop (Suc i) (key (report st)) @ [0]"
    using release_at_held_slot[OF p, of i "linux2hid (ev_code ev)"] by simp
  from a r show "key (report (fst (snd (input_event linux2hid st input ctrl intr (sizeof_event, ev) w))))
         = take i (key (report st)) @ drop (Suc i) (key (report st)) @ [0]"
    by (simp add: input_event_key)
  from a r left_packed_removed[OF p(1) _ p(2), of i]
  show "left_packed (key (report (fst (snd (input_event linux2hid st input ctrl intr (sizeof_event, ev) w)))))"
    by (simp add: input_event_key)
next
  assume b: "byte_table linux2hid"
  show "distinct_status (after_events linux2hid input ctrl intr init_status evs)"
    using b init_status_distinct by (rule after_events_distinct)
  show "distinct_status (ls_status (flow_state
             (main_loop linux2hid tgt_any (loop_start input li lc t) script)))"
    using b by (rule main_loop_distinct) (simp add: loop_start_def init_status_distinct)
qed

theorem release_compacts_witness:
  "key (report (fst (snd (input_event linux2hid_sample (keys_status [4, 5, 6, 0, 0, 0]) 3 4 5
      (sizeof_event, key_release 48) 9)))) = [4, 6, 0, 0, 0, 0]
   \<and> left_packed [4, 6, 0, 0, 0, 0]
   \<and> distinct_status (after_events linux2hid_sample 3 4 5 init_status
        [((sizeof_event, key_press 30), 9), ((sizeof_event, key_press 48), 9)])
   \<and> key (report (after_events linux2hid_sample 3 4 5 init_status
        [((sizeof_event, key_press 30), 9), ((sizeof_event, key_press 48), 9)])) = [4, 5, 0, 0, 0, 0]"
proof -
  have ds: "distinct_status (keys_status [4, 5, 6, 0, 0, 0])"
    by (simp add: distinct_status_def packed_status_def keys_status_simps)
  have "key (report (fst (snd (input_event linux2hid_sample (keys_status [4, 5, 6, 0, 0, 0]) 3 4 5
      (sizeof_event, key_release 48) 9)))) = [4, 6, 0, 0, 0, 0]
   \<and> left_packed [4, 6, 0, 0, 0, 0]
   \<and> distinct_status (after_events linux2hid_sample 3 4 5 init_status
        [((sizeof_event, key_press 30), 9), ((sizeof_event, key_press 48), 9)])"
    using release_compacts[of "keys_status [4, 5, 6, 0, 0, 0]" "key_release 48" 1 linux2hid_sample
        3 4 5 9 "[((sizeof_event, key_press 30), 9), ((sizeof_event, key_press 48), 9)]"
        True 6 7 "[]" "[]"]
      ds key_event_sample byte_table_sample
    by (simp add: keys_status_simps sample_codes)
  then show ?thesis
    by (simp add: after_events_def keys_status_simps sample_step key_event_sample sample_codes
        key_loop_samples)
qed

section \<open>Inbound frames\<close>

lemma and_bit0: "(b AND 1 \<noteq> 0) = bit (b :: u8) 0"
  by (simp add: and_one_eq mod_2_eq_odd bit_0)
lemma and_bit1: "(b AND 2 \<noteq> 0) = bit (b :: u8) 1"
  using and_exp_eq_0_iff_not_bit[of b 1] by simp
lemma and_bit2: "(b AND 4 \<noteq> 0) = bit (b :: u8) 2"
  using and_exp_eq_0_iff_not_bit[of b 2] by simp
lemma and_bit3: "(b AND 8 \<noteq> 0) = bit (b :: u8) 3"
  using and_exp_eq_0_iff_not_bit[of b 3] by simp
lemma and_bit4: "(b AND 16 \<noteq> 0) = bit (b :: u8) 4"
  using and_exp_eq_0_iff_not_bit[of b 4] by simp

lemma set_leds_bits:
  "set_leds input b =
     (0, [Write_event input (led_event LED_NUML (bit b 0)),
          Write_event input (led_event LED_CAPSL (bit b 1)),
          Write_event input (led_event LED_SCROLLL (bit b 2)),
          Write_event input (led_event LED_COMPOSE (bit b 3)),
          Write_event input (led_event LED_KANA (bit b 4))])"
  unfolding set_leds_def HIDP_NUML_def HIDP_CAPSL_def HIDP_SCROLLL_def HIDP_COMPOSE_def HIDP_KANA_def
  by (simp only: and_bit0 and_bit1 and_bit2 and_bit3 and_bit4)

lemma trans_distinct: "HIDP_TRANS_DATA \<noteq> HIDP_TRANS_SET_PROTOCOL"
  by (simp add: HIDP_TRANS_DATA_def HIDP_TRANS_SET_PROTOCOL_def)

text \<open>
  Claim C5. A Data frame of 2 or 3 bytes makes \<^verbatim>\<open>btooth_command\<close> write exactly five
  LED events to the input device, for Num, Caps, Scroll, Compose and Kana in this order,
  each with the value of bit 0, 1, 2, 3 and 4 of the last byte of the frame. Nothing is
  written to the channel, and the stored status plays no part in the result.
\<close>

theorem led_fan_out:
  assumes "n = 2 \<or> n = 3" and "n \<le> int (length buf)"
    and "buf ! 0 AND HIDP_HEADER_TRANS_MASK = HIDP_TRANS_DATA"
  shows "btooth_command st fd input (n, buf) =
     (None, st,
      [Write_event input (led_event LED_NUML (bit (buf ! nat (n - 1)) 0)),
       Write_event input (led_event LED_CAPSL (bit (buf ! nat (n - 1)) 1)),
       Write_event input (led_event LED_SCROLLL (bit (buf ! nat (n - 1)) 2)),
       Write_event input (led_event LED_COMPOSE (bit (buf ! nat (n - 1)) 3)),
       Write_event input (led_event LED_KANA (bit (buf ! nat (n - 1)) 4))])"
  using assms(1,3) trans_distinct
  by (auto simp: btooth_command_def Let_def set_leds_bits)

theorem led_fan_out_witness:
  "btooth_command init_status 7 3 (3, [0xa2, 0x01, 0x07]) =
     (None, init_status,
      [Write_event 3 \<lparr>ev_type = EV_LED, ev_code = LED_NUML, ev_value = 1\<rparr>,
       Write_event 3 \<lparr>ev_type = EV_LED, ev_code = LED_CAPSL, ev_value = 1\<rparr>,
       Write_event 3 \<lparr>ev_type = EV_LED, ev_code = LED_SCROLLL, ev_value = 1\<rparr>,
       Write_event 3 \<lparr>ev_type = EV_LED, ev_code = LED_COMPOSE, ev_value = 0\<rparr>,
       Write_event 3 \<lparr>ev_type = EV_LED, ev_code = LED_KANA, ev_value = 0\<rparr>])"
  using led_fan_out[of 3 "[0xa2, 0x01, 0x07]" init_status 7 3]
  by (simp add: HIDP_HEADER_TRANS_MASK_def HIDP_TRANS_DATA_def led_event_def bit_numeral_simps)

text \<open>
  Claim C6. For a read of positive size: a Set-Protocol frame is answered with the one
  byte Handshake with result Successful; a frame that is neither Set-Protocol nor Data,
  and a Data frame whose size is neither 2 nor 3, is answered with the one byte
  Handshake with result Err-Unknown, and the function returns 0; a Data frame of 2 or 3
  bytes is answered with no byte.
\<close>

theorem handshake_replies:
  assumes "0 < n" and "n \<le> int (length buf)"
  shows "(buf ! 0 AND HIDP_HEADER_TRANS_MASK = HIDP_TRANS_SET_PROTOCOL \<longrightarrow>
            btooth_command st fd input (n, buf) =
              (None, st, [Write_bytes fd [HIDP_TRANS_HANDSHAKE OR HIDP_HSHK_SUCCESSFUL]]))
       \<and> (buf ! 0 AND HIDP_HEADER_TRANS_MASK \<noteq> HIDP_TRANS_SET_PROTOCOL
            \<and> (buf ! 0 AND HIDP_HEADER_TRANS_MASK \<noteq> HIDP_TRANS_DATA \<or> (n \<noteq> 2 \<and> n \<noteq> 3)) \<longrightarrow>
            btooth_command st fd input (n, buf) =
              (None, st, [Write_bytes fd [HIDP_TRANS_HANDSHAKE OR HIDP_HSHK_ERR_UNKNOWN]]))
       \<and> (buf ! 0 AND HIDP_HEADER_TRANS_MASK = HIDP_TRANS_DATA \<and> (n = 2 \<or> n = 3) \<longrightarrow>
            fst (btooth_command st fd input (n, buf)) = None
            \<and> reply_bytes (snd (snd (btooth_command st fd input (n, buf)))) = [])"
  using assms(1) trans_distinct
  by (auto simp: btooth_command_def Let_def set_leds_def)

theorem handshake_replies_witness:
  "btooth_command init_status 7 3 (1, [0x71]) = (None, init_status, [Write_bytes 7 [0x00]])
   \<and> btooth_command init_status 7 3 (1, [0x90]) = (None, init_status, [Write_bytes 7 [0x0e]])
   \<and> btooth_command init_status 7 3 (4, [0xa2, 1, 2, 3]) = (None, init_status, [Write_bytes 7 [0x0e]])
   \<and> reply_bytes (snd (snd (btooth_command init_status 7 3 (2, [0xa2, 0x07])))) = []"
  using handshake_replies[of 1 "[0x71]" init_status 7 3]
    handshake_replies[of 1 "[0x90]" init_status 7 3]
    handshake_replies[of 4 "[0xa2, 1, 2, 3]" init_status 7 3]
    handshake_replies[of 2 "[0xa2, 0x07]" init_status 7 3]
  by (simp add: HIDP_HEADER_TRANS_MASK_def HIDP_TRANS_DATA_def HIDP_TRANS_SET_PROTOCOL_def
      HIDP_TRANS_HANDSHAKE_def HIDP_HSHK_SUCCESSFUL_def HIDP_HSHK_ERR_UNKNOWN_def)

section \<open>Reading the event device\<close>

text \<open>
  Claim C7, as amended. \<^verbatim>\<open>input_event\<close> fails with the read error exactly when the
  read returns \<^verbatim>\<open>-1\<close>, and with the bad-size error exactly when it returns any other
  value that is not the size of an event record; a read of size zero is such a value.
\<close>

theorem input_read_errors:
  "(fst (input_event linux2hid st input ctrl intr (n, ev) w) = Some InputReadError) = (n = - 1)
   \<and> (fst (input_event linux2hid st input ctrl intr (n, ev) w) = Some MalformedEventError)
       = (n \<noteq> - 1 \<and> n \<noteq> sizeof_event)"
  by (simp add: input_event_def Let_def)

theorem input_read_errors_witness:
  "fst (input_event linux2hid_sample init_status 3 4 5 (- 1, key_press 30) 9) = Some InputReadError
   \<and> fst (input_event linux2hid_sample init_status 3 4 5 (8, key_press 30) 9) = Some MalformedEventError"
  using input_read_errors[of linux2hid_sample init_status 3 4 5 "- 1" "key_press 30" 9]
    input_read_errors[of linux2hid_sample init_status 3 4 5 8 "key_press 30" 9]
  by (simp add: sizeof_event_def)

text \<open>A read of size zero fails with the bad-size error.\<close>

theorem zero_read_counterexample:
  "fst (input_event linux2hid_sample init_status 3 4 5 (0, key_press 30) 9) = Some MalformedEventError"
  by (simp add: input_event_def Let_def sizeof_event_def)

section \<open>Opening the device\<close>

text \<open>
  Claim C8 asks that a failure after a successful \<^verbatim>\<open>open\<close> releases the descriptor.
  \<^verbatim>\<open>input_open\<close> does not: on every such failure the descriptor is still open when
  the function returns, and \<^verbatim>\<open>session\<close> returns 0 with no further call.
\<close>

theorem input_open_leaks:
  "fst (input_open e) = Inl err \<and> err \<noteq> DeviceOpenError \<longrightarrow>
     still_open (snd (input_open e)) (open_ret e)
     \<and> session linux2hid tgt_any e li lc script = Some (0, snd (input_open e))"
  by (simp add: input_open_def Let_def still_open_def session_def session_setup_def)

theorem input_open_leaks_witness:
  "input_open (sample_open_env\<lparr>rep_ret := - 1\<rparr>)
     = (Inl AutorepeatConfigError,
        [Open_dev 3, Ioctl 3 EVIOCGVERSION, Ioctl 3 EVIOCGBIT, Ioctl 3 EVIOCGRAB, Ioctl 3 EVIOCSREP])
   \<and> still_open (snd (input_open (sample_open_env\<lparr>rep_ret := - 1\<rparr>))) 3
   \<and> session linux2hid_sample True (sample_open_env\<lparr>rep_ret := - 1\<rparr>) 6 7 [sample_round]
     = Some (0, [Open_dev 3, Ioctl 3 EVIOCGVERSION, Ioctl 3 EVIOCGBIT, Ioctl 3 EVIOCGRAB,
                 Ioctl 3 EVIOCSREP])"
proof -
  have e: "input_open (sample_open_env\<lparr>rep_ret := - 1\<rparr>)
     = (Inl AutorepeatConfigError,
        [Open_dev 3, Ioctl 3 EVIOCGVERSION, Ioctl 3 EVIOCGBIT, Ioctl 3 EVIOCGRAB, Ioctl 3 EVIOCSREP])"
    by (simp add: input_open_def sample_open_env_def Let_def EV_VERSION_def EV_KEY_def)
  with input_open_leaks[of "sample_open_env\<lparr>rep_ret := - 1\<rparr>" AutorepeatConfigError
      linux2hid_sample True 6 7 "[sample_round]"]
  show ?thesis by (simp add: sample_open_env_def)
qed

section \<open>The session\<close>

text \<open>
  Claim C9. \<^verbatim>\<open>session\<close> returns 0 exactly when \<^verbatim>\<open>input_open\<close> fails or one of the
  two \<^verbatim>\<open>l2cap_listen\<close> calls returns \<^verbatim>\<open>-1\<close>; it returns 1 exactly when the loop was
  entered and then left, whatever left it; and it has not returned exactly when the loop
  was entered and the program still waits in \<^verbatim>\<open>poll\<close>. A \<^verbatim>\<open>poll\<close> that returns no
  positive value is one way in which the loop is left, and then 1 is returned.
\<close>

theorem session_return:
  "(map_option fst (session linux2hid tgt_any oe li lc script) = Some 0)
      = (isl (fst (input_open oe)) \<or> li = - 1 \<or> lc = - 1)
   \<and> (map_option fst (session linux2hid tgt_any oe li lc script) = Some 1)
      = (\<not> (isl (fst (input_open oe)) \<or> li = - 1 \<or> lc = - 1)
         \<and> left_loop (main_loop linux2hid tgt_any (projr (session_setup oe li lc)) script))
   \<and> (session linux2hid tgt_any oe li lc script = None)
      = (\<not> (isl (fst (input_open oe)) \<or> li = - 1 \<or> lc = - 1)
         \<and> \<not> left_loop (main_loop linux2hid tgt_any (projr (session_setup oe li lc)) script))
   \<and> (\<not> (isl (fst (input_open oe)) \<or> li = - 1 \<or> lc = - 1) \<and> (\<exists>r \<in> set script. poll_ret r \<le> 0)
        \<longrightarrow> map_option fst (session linux2hid tgt_any oe li lc script) = Some 1)"
proof -
  let ?fail = "isl (fst (input_open oe)) \<or> li = - 1 \<or> lc = - 1"
  show ?thesis
  proof (cases "session_setup oe li lc")
    case (Inl t)
    then have "?fail" using setup_fails_iff[of oe li lc] by simp
    with Inl show ?thesis by (simp add: session_def)
  next
    case (Inr s0)
    then have nf: "\<not> ?fail" using setup_fails_iff[of oe li lc] by simp
    have "(\<exists>r \<in> set script. poll_ret r \<le> 0) \<longrightarrow> left_loop (main_loop linux2hid tgt_any s0 script)"
      using main_loop_ends by blast
    with Inr nf show ?thesis
      by (cases "main_loop linux2hid tgt_any s0 script") (simp_all add: session_def)
  qed
qed

theorem session_return_witness:
  "map_option fst (session linux2hid_sample True sample_open_env 6 7 [sample_round\<lparr>poll_ret := 0\<rparr>]) = Some 1
   \<and> map_option fst (session linux2hid_sample True sample_open_env 6 (- 1) [sample_round]) = Some 0
   \<and> map_option fst (session linux2hid_sample True sample_open_env 6 7 [sample_round\<lparr>re_input := 1\<rparr>]) = Some 1"
proof -
  have "map_option fst (session linux2hid_sample True sample_open_env 6 7 [sample_round\<lparr>poll_ret := 0\<rparr>]) = Some 1
   \<and> map_option fst (session linux2hid_sample True sample_open_env 6 (- 1) [sample_round]) = Some 0"
    using session_return[of linux2hid_sample True sample_open_env 6 7 "[sample_round\<lparr>poll_ret := 0\<rparr>]"]
      session_return[of linux2hid_sample True sample_open_env 6 "- 1" "[sample_round]"]
    by (simp add: sample_open_ok sample_round_def)
  then show ?thesis by (simp add: any_target_scenario)
qed

text \<open>
  Claim C10. \<^verbatim>\<open>btooth_command\<close> leaves the status as it was, modifier byte and key
  slots included, and so does the handling of a readable control or interrupt channel in
  the loop. The LED field of the status is 0 in every state of the loop, whatever the
  wake-ups: the LED byte of a frame goes to the device and is not stored.
\<close>

theorem frames_leave_status:
  "fst (snd (btooth_command st fd input rd)) = st
   \<and> ls_status (flow_state (on_command fd rd s)) = ls_status s
   \<and> leds (ls_status (flow_state (main_loop linux2hid tgt_any (loop_start input li lc t) script))) = 0"
  by (simp add: btooth_command_status on_command_status main_loop_leds loop_start_def init_status_def)

theorem frames_leave_status_witness:
  "fst (snd (btooth_command (keys_status [4, 5, 0, 0, 0, 0]) 8 3 (3, [0xa2, 0x01, 0x07])))
      = keys_status [4, 5, 0, 0, 0, 0]
   \<and> ls_status (flow_state (on_command 8 (3, [0xa2, 0x01, 0x07]) (loop_start 3 6 7 [])))
      = ls_status (loop_start 3 6 7 [])
   \<and> leds (ls_status (flow_state (main_loop linux2hid_sample True (loop_start 3 6 7 [])
        [sample_round\<lparr>re_scontrol := 1\<rparr>, sample_round\<lparr>re_control := 1\<rparr>]))) = 0"
  by (rule frames_leave_status)

end
